theory Spec2Isabelle
  imports Main "HOL-Library.Word" "HOL-Library.Signed_Division"
begin

section \<open>The product-key decoder of mskeys (main.go)\<close>

text \<open>
  The two functions of main.go that compute on bytes are embedded here:
  \<^verbatim>\<open>decodeKeySegment\<close> (lines 198-229) and \<^verbatim>\<open>DecodeDigitalProductId\<close>
  (lines 96-119). A Go \<^verbatim>\<open>byte\<close> is an \<open>8 word\<close>, a \<^verbatim>\<open>[]byte\<close> a list of
  them, a Go \<^verbatim>\<open>string\<close> a \<open>string\<close>. The Go \<^verbatim>\<open>int\<close> variable \<^verbatim>\<open>acc\<close>
  is an \<open>int\<close>; Go's \<^verbatim>\<open>/\<close> and \<^verbatim>\<open>%\<close> truncate towards zero, which is
  \<open>sdiv\<close> and \<open>smod\<close>. A run-time panic of Go (an index or a slice bound out of
  range) is the left summand of the result.

  The functions are given three times. First on byte sequences as values, with
  integers that do not overflow: most properties are stated there. Then the two loops of
  \<^verbatim>\<open>decodeKeySegment\<close> with every integer operation checked against a width, to show
  that none overflows. Last over a store of arrays, where a slice is a reference into an
  array, to show which arrays a call writes.
\<close>

subsection \<open>Data\<close>

type_synonym byte = "8 word"

datatype failure = IndexOutOfRange | SliceBoundsOutOfRange | IntegerOverflow | AccumulatorOutOfRange

type_synonym 'a result = "failure + 'a"

text \<open>\<^verbatim>\<open>const keyChars = "BCDFGHJKMPQRTVWXY2346789"\<close>\<close>

definition keyChars :: string where
  "keyChars = ''BCDFGHJKMPQRTVWXY2346789''"

text \<open>\<^verbatim>\<open>make([]byte, n)\<close>: a fresh slice of n zero bytes.\<close>

definition make_bytes :: "nat \<Rightarrow> byte list" where
  "make_bytes n = replicate n 0"

text \<open>
  \<^verbatim>\<open>copy(dst, src)\<close> overwrites the first \<open>min (len dst) (len src)\<close> elements of
  \<open>dst\<close>; the value returned here is \<open>dst\<close> after the call.
\<close>

definition copy_bytes :: "byte list \<Rightarrow> byte list \<Rightarrow> byte list" where
  "copy_bytes dst src =
     (let n = min (length dst) (length src) in take n src @ drop n dst)"

text \<open>
  \<^verbatim>\<open>s[lo:hi]\<close>: Go panics unless \<open>lo \<le> hi \<le> cap s\<close>; the capacity of a slice is
  taken to be its length.
\<close>

definition slice_bytes :: "byte list \<Rightarrow> nat \<Rightarrow> nat \<Rightarrow> byte list result" where
  "slice_bytes s lo hi =
     (if lo \<le> hi \<and> hi \<le> length s then Inr (take (hi - lo) (drop lo s))
      else Inl SliceBoundsOutOfRange)"

subsection \<open>decodeKeySegment\<close>

text \<open>
  The inner loop \<^verbatim>\<open>for j := 14; j >= 0; j--\<close> with body
  \<^verbatim>\<open>acc = acc*256 + int(tmp[j]); tmp[j] = byte(acc / 24); acc = acc % 24\<close>.
  The first argument is \<open>j + 1\<close>, the number of bytes still to be visited.
\<close>

fun divLoop :: "nat \<Rightarrow> byte list \<Rightarrow> int \<Rightarrow> (byte list \<times> int) result" where
  "divLoop 0 tmp acc = Inr (tmp, acc)"
| "divLoop (Suc j) tmp acc =
     (if j < length tmp then
        (let acc1 = acc * 256 + uint (tmp ! j);
             tmp1 = tmp[j := (word_of_int (acc1 sdiv 24) :: byte)];
             acc2 = acc1 smod 24
         in divLoop j tmp1 acc2)
      else Inl IndexOutOfRange)"

text \<open>
  The outer loop \<^verbatim>\<open>for i := 24; i >= 0; i--\<close>: one division pass with \<open>acc\<close>
  starting at 0, then \<^verbatim>\<open>keyChars[acc]\<close> is put in front of \<open>decoded\<close>, and a
  hyphen in front of that when \<^verbatim>\<open>i%5 == 0 && i != 0\<close>. The first argument is
  \<open>i + 1\<close>.
\<close>

fun decodeLoop :: "nat \<Rightarrow> byte list \<Rightarrow> string \<Rightarrow> string result" where
  "decodeLoop 0 tmp decoded = Inr decoded"
| "decodeLoop (Suc i) tmp decoded =
     (case divLoop 15 tmp 0 of
        Inl e \<Rightarrow> Inl e
      | Inr (tmp1, acc) \<Rightarrow>
          if 0 \<le> acc \<and> nat acc < length keyChars then
            (let decoded1 = (keyChars ! nat acc) # decoded;
                 decoded2 = (if i mod 5 = 0 \<and> i \<noteq> 0 then CHR ''-'' # decoded1 else decoded1)
             in decodeLoop i tmp1 decoded2)
          else Inl IndexOutOfRange)"

definition decodeKeySegment :: "byte list \<Rightarrow> string result" where
  "decodeKeySegment segment =
     (if length segment \<noteq> 15 then Inr []
      else
        (let tmp = copy_bytes (make_bytes 15) segment in
         case decodeLoop 25 tmp [] of
           Inl e \<Rightarrow> Inl e
         | Inr decoded \<Rightarrow> if length decoded \<noteq> 29 then Inr [] else Inr decoded))"

subsection \<open>DecodeDigitalProductId\<close>

text \<open>
  The fallback loop \<^verbatim>\<open>for offset := 40; offset < len(data)-15; offset++\<close>. The
  decoder it calls is an argument, so that the order in which the loop visits the
  windows can be stated for any decoder; the program passes \<open>decodeKeySegment\<close>.
\<close>

function fallbackScan :: "(byte list \<Rightarrow> string result) \<Rightarrow> byte list \<Rightarrow> nat \<Rightarrow> string result" where
  "fallbackScan dec data offset =
     (if int offset < int (length data) - 15 then
        (case slice_bytes data offset (offset + 15) of
           Inl e \<Rightarrow> Inl e
         | Inr seg \<Rightarrow>
             (case dec seg of
                Inl e \<Rightarrow> Inl e
              | Inr key \<Rightarrow> if key \<noteq> [] then Inr key else fallbackScan dec data (Suc offset)))
      else Inr [])"
  by pat_completeness auto
termination
  by (relation "measure (\<lambda>(dec, data, offset). length data - offset)") auto

declare fallbackScan.simps [simp del]

definition locateKeyWith :: "(byte list \<Rightarrow> string result) \<Rightarrow> byte list \<Rightarrow> string result" where
  "locateKeyWith dec data =
     (if length data < 67 then Inr []
      else
        (case slice_bytes data 52 67 of
           Inl e \<Rightarrow> Inl e
         | Inr window \<Rightarrow>
             (let segment = copy_bytes (make_bytes 15) window in
              case dec segment of
                Inl e \<Rightarrow> Inl e
              | Inr decoded \<Rightarrow> if decoded \<noteq> [] then Inr decoded else fallbackScan dec data 40)))"

definition DecodeDigitalProductId :: "byte list \<Rightarrow> string result" where
  "DecodeDigitalProductId data = locateKeyWith decodeKeySegment data"

subsection \<open>The number a segment stands for, and its base-24 rendering\<close>

text \<open>
  The definitions of this subsection and of the next translate no code: the properties
  of the code are stated with them.

  The value of a byte sequence read least-significant byte first: the sum of
  \<open>byte[i] * 256 ^ i\<close>.
\<close>

fun segValue :: "byte list \<Rightarrow> nat" where
  "segValue [] = 0"
| "segValue (b # bs) = unat b + 256 * segValue bs"

text \<open>The character for the k-th base-24 digit of v, counted from the least significant.\<close>

definition digitChar :: "nat \<Rightarrow> nat \<Rightarrow> char" where
  "digitChar v k = keyChars ! ((v div 24 ^ k) mod 24)"

text \<open>What round \<open>i\<close> of the outer loop puts in front of its character.\<close>

definition hyphenBefore :: "nat \<Rightarrow> string" where
  "hyphenBefore i = (if i mod 5 = 0 \<and> i \<noteq> 0 then ''-'' else [])"

text \<open>
  The grouped rendering of the 25 low base-24 digits of v, most significant first:
  five groups of five characters with a hyphen between two groups.
\<close>

definition keyGroup :: "nat \<Rightarrow> nat \<Rightarrow> string" where
  "keyGroup v k = map (digitChar v) [k + 4, k + 3, k + 2, k + 1, k]"

definition formatKey :: "nat \<Rightarrow> string" where
  "formatKey v = keyGroup v 20 @ ''-'' @ keyGroup v 15 @ ''-'' @ keyGroup v 10 @ ''-'' @ keyGroup v 5
                 @ ''-'' @ keyGroup v 0"

text \<open>
  A structurally valid key: 29 characters, a hyphen at the positions 5, 11, 17 and 23
  (after 5, 10, 15 and 20 characters of the alphabet), a character of \<open>keyChars\<close>
  everywhere else.
\<close>

definition wellFormedKey :: "string \<Rightarrow> bool" where
  "wellFormedKey s =
     (length s = 29 \<and>
      list_all (\<lambda>i. if i \<in> {5, 11, 17, 23} then s ! i = CHR ''-'' else s ! i \<in> set keyChars) [0..<29])"

subsection \<open>Windows of a buffer\<close>

text \<open>The 15 bytes of a buffer that start at an offset (fewer at the end of the buffer).\<close>

definition windowAt :: "byte list \<Rightarrow> nat \<Rightarrow> byte list" where
  "windowAt data off = take 15 (drop off data)"

text \<open>
  No window of 15 bytes of the buffer, at any offset from 0 to \<open>len - 15\<close>, decodes
  to a structurally valid key.
\<close>

definition noValidWindow :: "byte list \<Rightarrow> bool" where
  "noValidWindow data =
     list_all (\<lambda>off. case decodeKeySegment (windowAt data off) of
                       Inl e \<Rightarrow> True
                     | Inr s \<Rightarrow> \<not> wellFormedKey s)
       [0..<Suc (length data) - 15]"

subsection \<open>The loops with every integer operation checked\<close>

text \<open>
  A signed integer of \<open>w\<close> bits holds the values from \<open>- 2 ^ (w - 1)\<close> to
  \<open>2 ^ (w - 1) - 1\<close>. Go's \<^verbatim>\<open>int\<close> has 32 or 64 bits.
\<close>

definition fitsInt :: "nat \<Rightarrow> int \<Rightarrow> bool" where
  "fitsInt w x = (- (2 ^ (w - 1)) \<le> x \<and> x < 2 ^ (w - 1))"

text \<open>The result of an integer operation, or the failure when it does not fit.\<close>

definition checked :: "nat \<Rightarrow> int \<Rightarrow> int result" where
  "checked w x = (if fitsInt w x then Inr x else Inl IntegerOverflow)"

text \<open>
  The inner loop of \<open>decodeKeySegment\<close> once more, the same statements in the same
  order, where each of \<^verbatim>\<open>acc*256\<close>, \<^verbatim>\<open>+ int(tmp[j])\<close>, \<^verbatim>\<open>acc / 24\<close> and
  \<^verbatim>\<open>acc % 24\<close> fails when its result does not fit \<open>w\<close> bits, and where the run
  fails when \<open>acc\<close> is outside 0..23 at the start of a step or at the end of the loop,
  or when \<^verbatim>\<open>acc*256 + int(tmp[j])\<close> is outside 0..6143.
\<close>

fun divLoopChecked :: "nat \<Rightarrow> nat \<Rightarrow> byte list \<Rightarrow> int \<Rightarrow> (byte list \<times> int) result" where
  "divLoopChecked w 0 tmp acc =
     (if 0 \<le> acc \<and> acc \<le> 23 then Inr (tmp, acc) else Inl AccumulatorOutOfRange)"
| "divLoopChecked w (Suc j) tmp acc =
     (if \<not> (0 \<le> acc \<and> acc \<le> 23) then Inl AccumulatorOutOfRange
      else if j < length tmp then
        (case checked w (acc * 256) of
           Inl e \<Rightarrow> Inl e
         | Inr m \<Rightarrow>
             (case checked w (m + uint (tmp ! j)) of
                Inl e \<Rightarrow> Inl e
              | Inr acc1 \<Rightarrow>
                  if \<not> (0 \<le> acc1 \<and> acc1 \<le> 6143) then Inl AccumulatorOutOfRange
                  else
                    (case checked w (acc1 sdiv 24) of
                       Inl e \<Rightarrow> Inl e
                     | Inr q \<Rightarrow>
                         (case checked w (acc1 smod 24) of
                            Inl e \<Rightarrow> Inl e
                          | Inr acc2 \<Rightarrow> divLoopChecked w j (tmp[j := (word_of_int q :: byte)]) acc2))))
      else Inl IndexOutOfRange)"

text \<open>The outer loop over the checked inner loop.\<close>

fun decodeLoopChecked :: "nat \<Rightarrow> nat \<Rightarrow> byte list \<Rightarrow> string \<Rightarrow> string result" where
  "decodeLoopChecked w 0 tmp decoded = Inr decoded"
| "decodeLoopChecked w (Suc i) tmp decoded =
     (case divLoopChecked w 15 tmp 0 of
        Inl e \<Rightarrow> Inl e
      | Inr (tmp1, acc) \<Rightarrow>
          if 0 \<le> acc \<and> nat acc < length keyChars then
            (let decoded1 = (keyChars ! nat acc) # decoded;
                 decoded2 = (if i mod 5 = 0 \<and> i \<noteq> 0 then CHR ''-'' # decoded1 else decoded1)
             in decodeLoopChecked w i tmp1 decoded2)
          else Inl IndexOutOfRange)"

subsection \<open>The two functions over a store of arrays\<close>

text \<open>
  A Go slice refers to a part of a backing array, and two slices may share one. To state
  which bytes a call writes, the functions are embedded a second time over a store: a
  list of arrays, an array being named by its position. \<^verbatim>\<open>make\<close> appends a new
  array to the store. A slice value is the triple of its array, its first position in
  it and its length (the capacity is taken to be the length). The string under
  construction is rebuilt at each round by \<^verbatim>\<open>append\<close> onto a new one-element slice; it
  is kept as a value.
\<close>

type_synonym store = "byte list list"

record sliceRef =
  s_array :: nat
  s_off :: nat
  s_len :: nat

text \<open>The slice lies within an array of the store.\<close>

definition validRef :: "store \<Rightarrow> sliceRef \<Rightarrow> bool" where
  "validRef st s = (s_array s < length st \<and> s_off s + s_len s \<le> length (st ! s_array s))"

text \<open>The bytes a slice holds.\<close>

definition contents :: "store \<Rightarrow> sliceRef \<Rightarrow> byte list" where
  "contents st s = take (s_len s) (drop (s_off s) (st ! s_array s))"

text \<open>\<^verbatim>\<open>make([]byte, n)\<close>\<close>

definition allocate :: "store \<Rightarrow> nat \<Rightarrow> store \<times> sliceRef" where
  "allocate st n = (st @ [replicate n 0], \<lparr>s_array = length st, s_off = 0, s_len = n\<rparr>)"

text \<open>\<^verbatim>\<open>s[i]\<close> read and written; Go panics when \<open>i\<close> is not below the length.\<close>

definition readAt :: "store \<Rightarrow> sliceRef \<Rightarrow> nat \<Rightarrow> byte result" where
  "readAt st s i = (if i < s_len s then Inr (st ! s_array s ! (s_off s + i)) else Inl IndexOutOfRange)"

definition writeAt :: "store \<Rightarrow> sliceRef \<Rightarrow> nat \<Rightarrow> byte \<Rightarrow> store result" where
  "writeAt st s i v =
     (if i < s_len s then Inr (st[s_array s := (st ! s_array s)[s_off s + i := v]]) else Inl IndexOutOfRange)"

text \<open>\<^verbatim>\<open>s[lo:hi]\<close>: the same array, no byte is copied.\<close>

definition subslice :: "sliceRef \<Rightarrow> nat \<Rightarrow> nat \<Rightarrow> sliceRef result" where
  "subslice s lo hi =
     (if lo \<le> hi \<and> hi \<le> s_len s then Inr \<lparr>s_array = s_array s, s_off = s_off s + lo, s_len = hi - lo\<rparr>
      else Inl SliceBoundsOutOfRange)"

text \<open>\<^verbatim>\<open>copy(dst, src)\<close>\<close>

definition copyInto :: "store \<Rightarrow> sliceRef \<Rightarrow> sliceRef \<Rightarrow> store" where
  "copyInto st dst src =
     (let n = min (s_len dst) (s_len src);
          bytes = take n (contents st src);
          a = st ! s_array dst
      in st[s_array dst := take (s_off dst) a @ bytes @ drop (s_off dst + n) a])"

text \<open>The inner loop: it reads and writes \<^verbatim>\<open>tmp[j]\<close> in the store.\<close>

fun divLoopH :: "nat \<Rightarrow> store \<Rightarrow> sliceRef \<Rightarrow> int \<Rightarrow> (store \<times> int) result" where
  "divLoopH 0 st tmp acc = Inr (st, acc)"
| "divLoopH (Suc j) st tmp acc =
     (case readAt st tmp j of
        Inl e \<Rightarrow> Inl e
      | Inr b \<Rightarrow>
          (let acc1 = acc * 256 + uint b in
           case writeAt st tmp j (word_of_int (acc1 sdiv 24)) of
             Inl e \<Rightarrow> Inl e
           | Inr st1 \<Rightarrow> divLoopH j st1 tmp (acc1 smod 24)))"

fun decodeLoopH :: "nat \<Rightarrow> store \<Rightarrow> sliceRef \<Rightarrow> string \<Rightarrow> (store \<times> string) result" where
  "decodeLoopH 0 st tmp decoded = Inr (st, decoded)"
| "decodeLoopH (Suc i) st tmp decoded =
     (case divLoopH 15 st tmp 0 of
        Inl e \<Rightarrow> Inl e
      | Inr (st1, acc) \<Rightarrow>
          if 0 \<le> acc \<and> nat acc < length keyChars then
            (let decoded1 = (keyChars ! nat acc) # decoded;
                 decoded2 = (if i mod 5 = 0 \<and> i \<noteq> 0 then CHR ''-'' # decoded1 else decoded1)
             in decodeLoopH i st1 tmp decoded2)
          else Inl IndexOutOfRange)"

text \<open>
  \<^verbatim>\<open>tmp := make([]byte, 15); copy(tmp, segment)\<close>, then the 25 rounds on \<open>tmp\<close>.
\<close>

definition decodeKeySegmentH :: "store \<Rightarrow> sliceRef \<Rightarrow> (store \<times> string) result" where
  "decodeKeySegmentH st segment =
     (if s_len segment \<noteq> 15 then Inr (st, [])
      else
        (let (st1, tmp) = allocate st 15;
             st2 = copyInto st1 tmp segment
         in case decodeLoopH 25 st2 tmp [] of
              Inl e \<Rightarrow> Inl e
            | Inr (st3, decoded) \<Rightarrow>
                if length decoded \<noteq> 29 then Inr (st3, []) else Inr (st3, decoded)))"

text \<open>
  The fallback loop passes \<^verbatim>\<open>data[offset : offset+15]\<close>, a slice of the caller's own
  array, to \<open>decodeKeySegment\<close>.
\<close>

function fallbackScanH :: "store \<Rightarrow> sliceRef \<Rightarrow> nat \<Rightarrow> (store \<times> string) result" where
  "fallbackScanH st data offset =
     (if int offset < int (s_len data) - 15 then
        (case subslice data offset (offset + 15) of
           Inl e \<Rightarrow> Inl e
         | Inr seg \<Rightarrow>
             (case decodeKeySegmentH st seg of
                Inl e \<Rightarrow> Inl e
              | Inr (st1, key) \<Rightarrow>
                  if key \<noteq> [] then Inr (st1, key) else fallbackScanH st1 data (Suc offset)))
      else Inr (st, []))"
  by pat_completeness auto
termination
  by (relation "measure (\<lambda>(st, data, offset). s_len data - offset)") auto

declare fallbackScanH.simps [simp del]

text \<open>
  \<^verbatim>\<open>segment := make([]byte, 15); copy(segment, data[52:67])\<close>, the decoder on
  \<open>segment\<close>, then the fallback loop.
\<close>

definition DecodeDigitalProductIdH :: "store \<Rightarrow> sliceRef \<Rightarrow> (store \<times> string) result" where
  "DecodeDigitalProductIdH st data =
     (if s_len data < 67 then Inr (st, [])
      else
        (let (st1, segment) = allocate st 15 in
         case subslice data 52 67 of
           Inl e \<Rightarrow> Inl e
         | Inr window \<Rightarrow>
             (let st2 = copyInto st1 segment window in
              case decodeKeySegmentH st2 segment of
                Inl e \<Rightarrow> Inl e
              | Inr (st3, decoded) \<Rightarrow>
                  if decoded \<noteq> [] then Inr (st3, decoded) else fallbackScanH st3 data 40)))"

section \<open>The two length tests\<close>

lemma decodeKeySegment_wrong_length:
  "length segment \<noteq> 15 \<Longrightarrow> decodeKeySegment segment = Inr []"
  by (simp add: decodeKeySegment_def)

lemma locateKeyWith_short:
  "length data < 67 \<Longrightarrow> locateKeyWith dec data = Inr []"
  by (simp add: locateKeyWith_def)

section \<open>The division pass and the 25 rounds\<close>

lemma segValue_append: "segValue (xs @ ys) = segValue xs + 256 ^ length xs * segValue ys"
  by (induction xs) (simp_all add: algebra_simps)

lemma sdiv_nonneg: "0 \<le> (a::int) \<Longrightarrow> a sdiv 24 = a div 24"
  by (simp add: signed_divide_int_def sgn_if)

lemma smod_nonneg: "0 \<le> (a::int) \<Longrightarrow> a smod 24 = a mod 24"
  by (simp add: signed_modulo_int_def sgn_if)

lemma uint_byte_bounds: "0 \<le> uint (b::byte) \<and> uint b \<le> 255"
  using uint_lt2p [of b] by simp

lemma acc_step_bounds:
  assumes "0 \<le> acc" "acc < 24"
  shows "0 \<le> acc * 256 + uint (b::byte)" "acc * 256 + uint b \<le> 6143"
        "0 \<le> (acc * 256 + uint b) div 24" "(acc * 256 + uint b) div 24 \<le> 255"
proof -
  have b: "0 \<le> uint b" "uint b \<le> 255" using uint_byte_bounds [of b] by simp_all
  show "0 \<le> acc * 256 + uint b" using assms b by simp
  then show "0 \<le> (acc * 256 + uint b) div 24" by (simp add: pos_imp_zdiv_nonneg_iff)
  show le: "acc * 256 + uint b \<le> 6143" using assms b by simp
  have "(acc * 256 + uint b) div 24 \<le> 6143 div 24" using le by (rule zdiv_mono1) simp
  then show "(acc * 256 + uint b) div 24 \<le> 255" by simp
qed

lemma quotient_byte:
  assumes "0 \<le> acc" "acc < 24"
  shows "uint (word_of_int ((acc * 256 + uint (b::byte)) div 24) :: byte) = (acc * 256 + uint b) div 24"
proof -
  have "0 \<le> (acc * 256 + uint b) div 24" "(acc * 256 + uint b) div 24 < 2 ^ 8"
    using acc_step_bounds [OF assms, of b] by simp_all
  then show ?thesis
    by (simp add: uint_word_of_int take_bit_int_eq_self)
qed

lemma divLoop_spec:
  "n \<le> length tmp \<Longrightarrow> 0 \<le> acc \<Longrightarrow> acc < 24 \<Longrightarrow>
   \<exists>tmp' r. divLoop n tmp acc = Inr (tmp', r) \<and> length tmp' = length tmp \<and>
     drop n tmp' = drop n tmp \<and> 0 \<le> r \<and> r < 24 \<and>
     int (segValue (take n tmp')) * 24 + r = acc * 256 ^ n + int (segValue (take n tmp))"
proof (induction n arbitrary: tmp acc)
  case 0
  then show ?case by simp
next
  case (Suc j)
  define a where "a = acc * 256 + uint (tmp ! j)"
  define tmp1 where "tmp1 = tmp[j := (word_of_int (a div 24) :: byte)]"
  have jlt: "j < length tmp" using Suc.prems by simp
  have a0: "0 \<le> a" "a \<le> 6143"
    unfolding a_def using acc_step_bounds [OF Suc.prems(2,3)] by simp_all
  have step: "divLoop (Suc j) tmp acc = divLoop j tmp1 (a mod 24)"
    using jlt a0 by (simp add: a_def tmp1_def Let_def sdiv_nonneg smod_nonneg)
  have "j \<le> length tmp1" using jlt by (simp add: tmp1_def)
  moreover have "0 \<le> a mod 24" "a mod 24 < 24" by simp_all
  ultimately obtain tmp' r where
    res: "divLoop j tmp1 (a mod 24) = Inr (tmp', r)" and
    len: "length tmp' = length tmp1" and
    dr: "drop j tmp' = drop j tmp1" and
    r: "0 \<le> r" "r < 24" and
    val: "int (segValue (take j tmp')) * 24 + r = (a mod 24) * 256 ^ j + int (segValue (take j tmp1))"
    using Suc.IH [of tmp1 "a mod 24"] by blast
  have len': "length tmp' = length tmp" using len by (simp add: tmp1_def)
  have nthj: "tmp' ! j = word_of_int (a div 24)"
  proof -
    have "tmp' ! j = hd (drop j tmp')" using jlt len' by (simp add: hd_drop_conv_nth)
    also have "\<dots> = hd (drop j tmp1)" by (simp add: dr)
    also have "\<dots> = tmp1 ! j" using jlt by (simp add: hd_drop_conv_nth tmp1_def)
    finally show ?thesis using jlt by (simp add: tmp1_def)
  qed
  have drS: "drop (Suc j) tmp' = drop (Suc j) tmp"
  proof -
    have "drop (Suc j) tmp' = tl (drop j tmp')" by (simp add: drop_Suc tl_drop)
    also have "\<dots> = tl (drop j tmp1)" by (simp add: dr)
    also have "\<dots> = drop (Suc j) tmp1" by (simp add: drop_Suc tl_drop)
    also have "\<dots> = drop (Suc j) tmp" by (simp add: tmp1_def)
    finally show ?thesis .
  qed
  have tk1: "take j tmp1 = take j tmp" by (simp add: tmp1_def)
  have q: "int (unat (word_of_int (a div 24) :: byte)) = a div 24"
    using quotient_byte [OF Suc.prems(2,3), of "tmp ! j"] by (simp add: a_def)
  have v': "int (segValue (take (Suc j) tmp')) = int (segValue (take j tmp')) + 256 ^ j * (a div 24)"
    using jlt len' q by (simp add: take_Suc_conv_app_nth segValue_append nthj)
  have v: "int (segValue (take (Suc j) tmp)) = int (segValue (take j tmp)) + 256 ^ j * uint (tmp ! j)"
    using jlt by (simp add: take_Suc_conv_app_nth segValue_append)
  have "a * 256 ^ j = (a mod 24 + 24 * (a div 24)) * 256 ^ j" by simp
  then have split_a: "a * 256 ^ j = a mod 24 * 256 ^ j + 24 * (a div 24) * 256 ^ j"
    by (simp only: distrib_right)
  have "int (segValue (take (Suc j) tmp')) * 24 + r
        = a mod 24 * 256 ^ j + 24 * (a div 24) * 256 ^ j + int (segValue (take j tmp))"
    using val by (simp add: v' tk1 algebra_simps)
  also have "\<dots> = a * 256 ^ j + int (segValue (take j tmp))"
    by (simp only: split_a)
  also have "\<dots> = acc * 256 ^ Suc j + int (segValue (take (Suc j) tmp))"
    by (simp add: v a_def algebra_simps)
  finally have "int (segValue (take (Suc j) tmp')) * 24 + r = acc * 256 ^ Suc j + int (segValue (take (Suc j) tmp))" .
  with step res len' drS r show ?case by simp
qed

lemma divLoop_full:
  assumes "length tmp = 15"
  shows "\<exists>tmp'. divLoop 15 tmp 0 = Inr (tmp', int (segValue tmp mod 24)) \<and> length tmp' = 15 \<and>
     segValue tmp' = segValue tmp div 24"
proof -
  obtain tmp' r where
    res: "divLoop 15 tmp 0 = Inr (tmp', r)" and len: "length tmp' = length tmp" and
    r: "0 \<le> r" "r < 24" and
    val: "int (segValue (take 15 tmp')) * 24 + r = 0 * 256 ^ 15 + int (segValue (take 15 tmp))"
  proof -
    have "15 \<le> length tmp" "(0::int) \<le> 0" "(0::int) < 24" using assms by simp_all
    from divLoop_spec [OF this] show ?thesis using that by blast
  qed
  define q where "q = segValue tmp'"
  define v where "v = segValue tmp"
  obtain k where k: "r = int k" using r(1) by (metis nonneg_int_cases)
  have tk: "take 15 tmp' = tmp'" "take 15 tmp = tmp" using len assms by simp_all
  have "int (q * 24 + k) = int v"
    using val unfolding tk k q_def v_def by simp
  then have qk: "q * 24 + k = v" by (simp only: of_nat_eq_iff)
  have k24: "k < 24" using r(2) k by simp
  have "v div 24 = q" "v mod 24 = k"
    using k24 unfolding qk [symmetric] by simp_all
  then have "r = int (segValue tmp mod 24)" "segValue tmp' = segValue tmp div 24"
    by (simp_all add: k q_def v_def)
  with res len assms show ?thesis by (simp only: simp_thms) blast
qed

lemma digitChar_shift: "digitChar (v div 24) k = digitChar v (Suc k)"
  by (simp add: digitChar_def div_mult2_eq)

lemma decodeLoop_spec:
  "length tmp = 15 \<Longrightarrow>
   decodeLoop n tmp decoded =
     Inr (concat (map (\<lambda>i. hyphenBefore i @ [digitChar (segValue tmp) (n - 1 - i)]) [0..<n]) @ decoded)"
proof (induction n arbitrary: tmp decoded)
  case 0
  then show ?case by simp
next
  case (Suc n)
  obtain tmp' where
    res: "divLoop 15 tmp 0 = Inr (tmp', int (segValue tmp mod 24))" and len: "length tmp' = 15" and
    val: "segValue tmp' = segValue tmp div 24"
    using divLoop_full [OF Suc.prems] by blast
  have idx: "segValue tmp mod 24 < length keyChars" by (simp add: keyChars_def)
  have shift: "map (\<lambda>i. hyphenBefore i @ [digitChar (segValue tmp') (n - 1 - i)]) [0..<n]
             = map (\<lambda>i. hyphenBefore i @ [digitChar (segValue tmp) (Suc n - 1 - i)]) [0..<n]"
    by (rule map_cong) (auto simp: val digitChar_shift Suc_diff_Suc)
  have d0: "keyChars ! (segValue tmp mod 24) = digitChar (segValue tmp) 0"
    by (simp add: digitChar_def)
  have hy: "(if n mod 5 = 0 \<and> n \<noteq> 0 then CHR ''-'' # c # decoded else c # decoded)
            = hyphenBefore n @ c # decoded" for c
    by (simp add: hyphenBefore_def)
  have "decodeLoop (Suc n) tmp decoded
        = decodeLoop n tmp' (hyphenBefore n @ digitChar (segValue tmp) 0 # decoded)"
    using idx by (simp only: decodeLoop.simps res sum.case prod.case Let_def hy) (simp add: d0)
  also have "\<dots> = Inr (concat (map (\<lambda>i. hyphenBefore i @ [digitChar (segValue tmp) (Suc n - 1 - i)]) [0..<n])
                      @ hyphenBefore n @ digitChar (segValue tmp) 0 # decoded)"
    by (simp only: Suc.IH [OF len] shift)
  also have "\<dots> = Inr (concat (map (\<lambda>i. hyphenBefore i @ [digitChar (segValue tmp) (Suc n - 1 - i)]) [0..<Suc n])
                      @ decoded)"
    by simp
  finally show ?case .
qed

lemma upt_25: "[0..<25] = [0, 1, 2, 3, 4, 5, 6, 7, 8, 9, 10, 11, 12, 13, 14, 15, 16, 17, 18, 19, 20, 21, 22, 23, 24::nat]"
  by code_simp

lemma rounds_formatKey:
  "concat (map (\<lambda>i. hyphenBefore i @ [digitChar v (25 - 1 - i)]) [0..<25]) = formatKey v"
  unfolding upt_25 by (simp add: hyphenBefore_def formatKey_def keyGroup_def numeral_2_eq_2)

lemma copy_bytes_same_length:
  "length src = n \<Longrightarrow> copy_bytes (make_bytes n) src = src"
  by (simp add: copy_bytes_def make_bytes_def)

lemma length_formatKey: "length (formatKey v) = 29"
  by (simp add: formatKey_def keyGroup_def)

lemma decodeKeySegment_formatKey:
  assumes "length segment = 15"
  shows "decodeKeySegment segment = Inr (formatKey (segValue segment))"
proof -
  have "decodeLoop 25 segment [] = Inr (formatKey (segValue segment))"
    using decodeLoop_spec [OF assms, of 25 "[]"] by (simp only: rounds_formatKey append_Nil2)
  then show ?thesis
    using assms by (simp add: decodeKeySegment_def copy_bytes_same_length length_formatKey)
qed

lemma segValue_bound: "segValue bs < 256 ^ length bs"
proof (induction bs)
  case Nil
  then show ?case by simp
next
  case (Cons b bs)
  have "unat b < 2 ^ LENGTH(8)" by (rule unsigned_less)
  then have "unat b < 256" by simp
  with Cons show ?case by simp
qed

section \<open>The shape of a decoded key\<close>

lemma length_keyChars: "length keyChars = 24"
  by (simp add: keyChars_def)

lemma digitChar_in_keyChars: "digitChar v k \<in> set keyChars"
  unfolding digitChar_def by (rule nth_mem) (simp add: length_keyChars)

lemma hyphen_not_keyChar: "CHR ''-'' \<notin> set keyChars"
  by (simp add: keyChars_def)

lemma digitChar_not_hyphen: "digitChar v k \<noteq> CHR ''-''"
  using digitChar_in_keyChars [of v k] hyphen_not_keyChar by metis

lemma formatKey_explicit:
  "formatKey v =
     [digitChar v 24, digitChar v 23, digitChar v 22, digitChar v 21, digitChar v 20, CHR ''-'',
      digitChar v 19, digitChar v 18, digitChar v 17, digitChar v 16, digitChar v 15, CHR ''-'',
      digitChar v 14, digitChar v 13, digitChar v 12, digitChar v 11, digitChar v 10, CHR ''-'',
      digitChar v 9, digitChar v 8, digitChar v 7, digitChar v 6, digitChar v 5, CHR ''-'',
      digitChar v 4, digitChar v 3, digitChar v 2, digitChar v 1, digitChar v 0]"
  by (simp add: formatKey_def keyGroup_def numeral_2_eq_2)

lemma upt_29: "[0..<29] = [0, 1, 2, 3, 4, 5, 6, 7, 8, 9, 10, 11, 12, 13, 14, 15, 16, 17, 18, 19, 20, 21, 22, 23, 24, 25, 26, 27, 28::nat]"
  by code_simp

lemma wellFormedKey_formatKey: "wellFormedKey (formatKey v)"
  unfolding wellFormedKey_def upt_29 formatKey_explicit
  by (simp add: digitChar_in_keyChars)

lemma filter_formatKey:
  "filter (\<lambda>c. c \<noteq> CHR ''-'') (formatKey v) = map (digitChar v) (rev [0..<25])"
  unfolding formatKey_explicit upt_25 by (simp add: digitChar_not_hyphen)

lemma hyphens_formatKey:
  "length (filter (\<lambda>c. c = CHR ''-'') (formatKey v)) = 4"
  unfolding formatKey_explicit by (simp add: digitChar_not_hyphen)

lemma keyChars_formatKey:
  "length (filter (\<lambda>c. c \<in> set keyChars) (formatKey v)) = 25"
  unfolding formatKey_explicit by (simp add: digitChar_in_keyChars hyphen_not_keyChar)

lemma set_formatKey: "set (formatKey v) \<subseteq> insert CHR ''-'' (set keyChars)"
  unfolding formatKey_explicit using digitChar_in_keyChars [of v] by simp

lemma segValue_sum: "segValue bs = (\<Sum>i<length bs. unat (bs ! i) * 256 ^ i)"
proof (induction bs)
  case Nil
  then show ?case by simp
next
  case (Cons b bs)
  have "(\<Sum>i<length (b # bs). unat ((b # bs) ! i) * 256 ^ i)
        = unat b + (\<Sum>i<length bs. unat (bs ! i) * 256 ^ Suc i)"
    by (simp add: sum.lessThan_Suc_shift del: sum.lessThan_Suc)
  also have "\<dots> = unat b + 256 * (\<Sum>i<length bs. unat (bs ! i) * 256 ^ i)"
    by (simp add: sum_distrib_left mult.assoc mult.left_commute)
  finally show ?case using Cons by simp
qed


lemma low_digits_value:
  "(\<Sum>k<n. ((v::nat) div 24 ^ k mod 24) * 24 ^ k) = v mod 24 ^ n"
proof (induction n)
  case 0
  then show ?case by simp
next
  case (Suc n)
  have "v mod 24 ^ Suc n = v mod (24 ^ n * 24)" by (simp add: mult.commute)
  also have "\<dots> = 24 ^ n * (v div 24 ^ n mod 24) + v mod 24 ^ n"
    by (rule mod_mult2_eq)
  finally show ?case using Suc by (simp add: mult.commute)
qed

section \<open>Claims about decodeKeySegment\<close>

text \<open>
  Claim C2. For a segment of exactly 15 bytes, with \<open>V\<close> the sum of
  \<open>byte[i] * 256 ^ i\<close> for \<open>i\<close> from 0 to 14: one pass of the inner loop over a
  15-byte working copy, started with \<open>acc = 0\<close>, leaves the quotient by 24 in the
  copy and returns the remainder; and \<open>decodeKeySegment\<close> returns a string whose 25
  characters other than hyphens are such that the k-th from the right is
  \<open>keyChars[(V div 24 ^ k) mod 24]\<close>, for k from 0 to 24. These 25 digits are the
  base-24 digits of \<open>V mod 24 ^ 25\<close>, most significant first (of \<open>V\<close> itself when
  \<open>V < 24 ^ 25\<close>).
\<close>

theorem decodeKeySegment_base24:
  assumes "length segment = 15"
  shows "segValue segment = (\<Sum>i<15. unat (segment ! i) * 256 ^ i) \<and>
         (\<forall>tmp. length tmp = 15 \<longrightarrow>
            (\<exists>tmp'. divLoop 15 tmp 0 = Inr (tmp', int (segValue tmp mod 24)) \<and>
                    length tmp' = 15 \<and> segValue tmp' = segValue tmp div 24)) \<and>
         (\<exists>s. decodeKeySegment segment = Inr s \<and>
              length (filter (\<lambda>c. c \<noteq> CHR ''-'') s) = 25 \<and>
              (\<forall>k<25. filter (\<lambda>c. c \<noteq> CHR ''-'') s ! (24 - k)
                         = keyChars ! ((segValue segment div 24 ^ k) mod 24))) \<and>
         (\<Sum>k<25. ((segValue segment div 24 ^ k) mod 24) * 24 ^ k) = segValue segment mod 24 ^ 25"
proof (intro conjI allI impI)
  show "segValue segment = (\<Sum>i<15. unat (segment ! i) * 256 ^ i)"
    using segValue_sum [of segment] assms by simp
next
  show "(\<Sum>k<25. ((segValue segment div 24 ^ k) mod 24) * 24 ^ k) = segValue segment mod 24 ^ 25"
    by (rule low_digits_value)
next
  fix tmp :: "byte list"
  assume "length tmp = 15"
  then show "\<exists>tmp'. divLoop 15 tmp 0 = Inr (tmp', int (segValue tmp mod 24)) \<and>
                  length tmp' = 15 \<and> segValue tmp' = segValue tmp div 24"
    by (rule divLoop_full)
next
  let ?v = "segValue segment"
  let ?s = "formatKey ?v"
  have res: "decodeKeySegment segment = Inr ?s"
    using assms by (rule decodeKeySegment_formatKey)
  have len: "length (filter (\<lambda>c. c \<noteq> CHR ''-'') ?s) = 25"
    by (simp add: filter_formatKey)
  have digits: "filter (\<lambda>c. c \<noteq> CHR ''-'') ?s ! (24 - k) = keyChars ! ((?v div 24 ^ k) mod 24)"
    if "k < 25" for k
  proof -
    have "24 - k < length [0..<25]" by simp
    then have "rev [0..<25] ! (24 - k) = [0..<25] ! (length [0..<25] - Suc (24 - k))"
      by (rule rev_nth)
    also have "\<dots> = k" using that by simp
    finally have "rev [0..<25] ! (24 - k) = k" .
    then show ?thesis
      by (simp add: filter_formatKey digitChar_def)
  qed
  show "\<exists>s. decodeKeySegment segment = Inr s \<and>
              length (filter (\<lambda>c. c \<noteq> CHR ''-'') s) = 25 \<and>
              (\<forall>k<25. filter (\<lambda>c. c \<noteq> CHR ''-'') s ! (24 - k)
                         = keyChars ! ((segValue segment div 24 ^ k) mod 24))"
    using res len digits by blast
qed

theorem decodeKeySegment_base24_witness:
  "length [1, 2, 3, 4, 5, 6, 7, 8, 9, 10, 11, 12, 13, 14, 255 :: byte] = 15 \<and>
   decodeKeySegment [1, 2, 3, 4, 5, 6, 7, 8, 9, 10, 11, 12, 13, 14, 255]
     = Inr ''M8V74-D28XV-QWWWC-TC8RX-2RWHP'' \<and>
   filter (\<lambda>c. c \<noteq> CHR ''-'') ''M8V74-D28XV-QWWWC-TC8RX-2RWHP'' ! (24 - 3)
     = keyChars ! ((segValue [1, 2, 3, 4, 5, 6, 7, 8, 9, 10, 11, 12, 13, 14, 255] div 24 ^ 3) mod 24)"
proof -
  let ?seg = "[1, 2, 3, 4, 5, 6, 7, 8, 9, 10, 11, 12, 13, 14, 255 :: byte]"
  have len: "length ?seg = 15" by simp
  have ev: "decodeKeySegment ?seg = Inr ''M8V74-D28XV-QWWWC-TC8RX-2RWHP''" by code_simp
  from decodeKeySegment_base24 [OF len] obtain s where
    s: "decodeKeySegment ?seg = Inr s" and
    d: "\<forall>k<25. filter (\<lambda>c. c \<noteq> CHR ''-'') s ! (24 - k)
                 = keyChars ! ((segValue ?seg div 24 ^ k) mod 24)"
    by blast
  from s ev have seq: "s = ''M8V74-D28XV-QWWWC-TC8RX-2RWHP''" by simp
  have "(3::nat) < 25" by simp
  with d have "filter (\<lambda>c. c \<noteq> CHR ''-'') s ! (24 - 3)
                 = keyChars ! ((segValue ?seg div 24 ^ 3) mod 24)" by blast
  then have key: "filter (\<lambda>c. c \<noteq> CHR ''-'') ''M8V74-D28XV-QWWWC-TC8RX-2RWHP'' ! (24 - 3)
                 = keyChars ! ((segValue ?seg div 24 ^ 3) mod 24)" unfolding seq .
  show ?thesis by (intro conjI len ev key)
qed



lemma excluded_chars: "set keyChars \<inter> set ''AEIOU01SZLN'' = {}"
  by (simp add: keyChars_def)

text \<open>
  Claim C3. For a segment of 15 bytes, \<open>decodeKeySegment\<close> returns the empty string or
  a string of 29 characters with hyphens at the positions 5, 11, 17 and 23 and characters
  of \<open>keyChars\<close> everywhere else; none of A, E, I, O, U, 0, 1, S, Z, L, N occurs in it.
\<close>

theorem decodeKeySegment_well_formed:
  assumes "length segment = 15"
  shows "\<exists>s. decodeKeySegment segment = Inr s \<and> (s = [] \<or> wellFormedKey s) \<and>
             set s \<subseteq> insert CHR ''-'' (set keyChars) \<and> set s \<inter> set ''AEIOU01SZLN'' = {}"
proof -
  let ?s = "formatKey (segValue segment)"
  have "decodeKeySegment segment = Inr ?s"
    using assms by (rule decodeKeySegment_formatKey)
  moreover have "wellFormedKey ?s" by (rule wellFormedKey_formatKey)
  moreover have sub: "set ?s \<subseteq> insert CHR ''-'' (set keyChars)" by (rule set_formatKey)
  moreover have "set ?s \<inter> set ''AEIOU01SZLN'' = {}"
  proof -
    have "insert CHR ''-'' (set keyChars) \<inter> set ''AEIOU01SZLN'' = {}"
      by (simp add: keyChars_def)
    with sub show ?thesis by blast
  qed
  ultimately show ?thesis by blast
qed

theorem decodeKeySegment_well_formed_witness:
  "length [16, 50, 84, 118, 152, 186, 220, 254, 0, 128, 127, 1, 2, 3, 4 :: byte] = 15 \<and>
   decodeKeySegment [16, 50, 84, 118, 152, 186, 220, 254, 0, 128, 127, 1, 2, 3, 4] = Inr ''XW48J-2YV2B-BX9QF-XQD44-KCHMY'' \<and>
   wellFormedKey ''XW48J-2YV2B-BX9QF-XQD44-KCHMY''"
proof -
  have len: "length [16, 50, 84, 118, 152, 186, 220, 254, 0, 128, 127, 1, 2, 3, 4 :: byte] = 15" by simp
  have ev: "decodeKeySegment [16, 50, 84, 118, 152, 186, 220, 254, 0, 128, 127, 1, 2, 3, 4] = Inr ''XW48J-2YV2B-BX9QF-XQD44-KCHMY''"
    by code_simp
  from decodeKeySegment_well_formed [OF len] obtain s where
    s: "decodeKeySegment [16, 50, 84, 118, 152, 186, 220, 254, 0, 128, 127, 1, 2, 3, 4] = Inr s" and w: "s = [] \<or> wellFormedKey s"
    by blast
  from s ev have seq: "s = ''XW48J-2YV2B-BX9QF-XQD44-KCHMY''" by simp
  from w have wf: "wellFormedKey ''XW48J-2YV2B-BX9QF-XQD44-KCHMY''" unfolding seq by simp
  show ?thesis by (intro conjI len ev wf)
qed

text \<open>
  Claim C5. For a segment of 15 bytes the outer loop ends with a string of length 29, made
  of 25 characters of \<open>keyChars\<close> and 4 hyphens, so the test
  \<^verbatim>\<open>len(decoded) != 29\<close> never succeeds and that string is returned; it is not
  empty. \<open>decodeKeySegment\<close> returns the empty string exactly when the length of
  its input is not 15.
\<close>

theorem decodeKeySegment_nonempty:
  "(length segment = 15 \<longrightarrow>
      (\<exists>s. decodeLoop 25 (copy_bytes (make_bytes 15) segment) [] = Inr s \<and> length s = 29 \<and>
           length (filter (\<lambda>c. c \<in> set keyChars) s) = 25 \<and>
           length (filter (\<lambda>c. c = CHR ''-'') s) = 4 \<and>
           decodeKeySegment segment = Inr s \<and> s \<noteq> [])) \<and>
   (decodeKeySegment segment = Inr [] \<longleftrightarrow> length segment \<noteq> 15)"
proof -
  have a: "\<exists>s. decodeLoop 25 (copy_bytes (make_bytes 15) segment) [] = Inr s \<and> length s = 29 \<and>
           length (filter (\<lambda>c. c \<in> set keyChars) s) = 25 \<and>
           length (filter (\<lambda>c. c = CHR ''-'') s) = 4 \<and>
           decodeKeySegment segment = Inr s \<and> s \<noteq> []" if len: "length segment = 15"
  proof -
    let ?s = "formatKey (segValue segment)"
    have dk: "decodeKeySegment segment = Inr ?s"
      using len by (rule decodeKeySegment_formatKey)
    have "decodeLoop 25 segment [] = Inr ?s"
      using decodeLoop_spec [OF len, of 25 "[]"] by (simp only: rounds_formatKey append_Nil2)
    then have dl: "decodeLoop 25 (copy_bytes (make_bytes 15) segment) [] = Inr ?s"
      using len by (simp add: copy_bytes_same_length)
    have ne: "?s \<noteq> []" using length_formatKey [of "segValue segment"] by auto
    show ?thesis
      using dk dl ne length_formatKey keyChars_formatKey hyphens_formatKey by blast
  qed
  have b: "decodeKeySegment segment = Inr [] \<longleftrightarrow> length segment \<noteq> 15"
  proof
    assume e: "decodeKeySegment segment = Inr []"
    show "length segment \<noteq> 15"
    proof
      assume "length segment = 15"
      from a [OF this] e show False by auto
    qed
  next
    assume "length segment \<noteq> 15"
    then show "decodeKeySegment segment = Inr []" by (rule decodeKeySegment_wrong_length)
  qed
  from a b show ?thesis by blast
qed

theorem decodeKeySegment_nonempty_witness:
  "length (replicate 15 (0 :: byte)) = 15 \<and>
   decodeKeySegment (replicate 15 0) = Inr ''BBBBB-BBBBB-BBBBB-BBBBB-BBBBB'' \<and>
   decodeKeySegment (replicate 15 0) \<noteq> Inr []"
proof -
  have len: "length (replicate 15 (0 :: byte)) = 15" by simp
  have ev: "decodeKeySegment (replicate 15 0) = Inr ''BBBBB-BBBBB-BBBBB-BBBBB-BBBBB''"
    by code_simp
  have ne: "decodeKeySegment (replicate 15 0) \<noteq> Inr []"
    using decodeKeySegment_nonempty [of "replicate 15 0"] len by blast
  show ?thesis by (intro conjI len ev ne)
qed


section \<open>The locator\<close>

lemma slice_window:
  "off + 15 \<le> length data \<Longrightarrow> slice_bytes data off (off + 15) = Inr (windowAt data off)"
  by (simp add: slice_bytes_def windowAt_def)

lemma length_windowAt: "off + 15 \<le> length data \<Longrightarrow> length (windowAt data off) = 15"
  by (simp add: windowAt_def)

lemma locateKeyWith_long:
  assumes "67 \<le> length data"
  shows "locateKeyWith dec data =
           (case dec (windowAt data 52) of
              Inl e \<Rightarrow> Inl e
            | Inr decoded \<Rightarrow> if decoded \<noteq> [] then Inr decoded else fallbackScan dec data 40)"
proof -
  have s: "slice_bytes data 52 67 = Inr (windowAt data 52)"
    using slice_window [of 52 data] assms by simp
  have c: "copy_bytes (make_bytes 15) (windowAt data 52) = windowAt data 52"
    using assms by (intro copy_bytes_same_length length_windowAt) simp
  show ?thesis
    using assms by (simp add: locateKeyWith_def s c)
qed

lemma locateKeyWith_primary:
  "67 \<le> length data \<Longrightarrow> dec (windowAt data 52) = Inr k \<Longrightarrow> k \<noteq> [] \<Longrightarrow>
   locateKeyWith dec data = Inr k"
  by (simp add: locateKeyWith_long)

lemma locateKeyWith_fallback:
  "67 \<le> length data \<Longrightarrow> dec (windowAt data 52) = Inr [] \<Longrightarrow>
   locateKeyWith dec data = fallbackScan dec data 40"
  by (simp add: locateKeyWith_long)

text \<open>
  The fallback loop for an arbitrary decoder: started at an offset, it returns the first
  result that is not empty among the windows from that offset up to \<open>len - 16\<close>, and
  the empty string when there is none. With \<open>decodeKeySegment\<close> the loop is not
  entered: on a buffer of 67 bytes or more the window at offset 52 always decodes to a
  key.
\<close>

lemma fallbackScan_unfold:
  "offset + 15 < length data \<Longrightarrow>
   fallbackScan dec data offset =
     (case dec (windowAt data offset) of
        Inl e \<Rightarrow> Inl e
      | Inr key \<Rightarrow> if key \<noteq> [] then Inr key else fallbackScan dec data (Suc offset))"
  by (subst fallbackScan.simps) (simp add: slice_window)

lemma fallbackScan_stop:
  "\<not> offset + 15 < length data \<Longrightarrow> fallbackScan dec data offset = Inr []"
  by (subst fallbackScan.simps) simp

lemma fallbackScan_first:
  "offset \<le> hit \<Longrightarrow> hit + 15 < length data \<Longrightarrow> dec (windowAt data hit) = Inr k \<Longrightarrow> k \<noteq> [] \<Longrightarrow>
   (\<forall>off. offset \<le> off \<and> off < hit \<longrightarrow> dec (windowAt data off) = Inr []) \<Longrightarrow>
   fallbackScan dec data offset = Inr k"
proof (induction "hit - offset" arbitrary: offset)
  case 0
  then have "offset = hit" by simp
  with 0 show ?case by (simp add: fallbackScan_unfold)
next
  case (Suc d)
  then have lt: "offset < hit" by simp
  then have e: "dec (windowAt data offset) = Inr []" using Suc.prems by simp
  have "fallbackScan dec data offset = fallbackScan dec data (Suc offset)"
    using lt Suc.prems(2) by (simp add: fallbackScan_unfold e)
  also have "\<dots> = Inr k"
  proof (rule Suc.hyps(1))
    show "d = hit - Suc offset" using Suc.hyps(2) by simp
    show "Suc offset \<le> hit" using lt by simp
    show "\<forall>off. Suc offset \<le> off \<and> off < hit \<longrightarrow> dec (windowAt data off) = Inr []"
      using Suc.prems(5) by simp
  qed (use Suc.prems in simp_all)
  finally show ?case .
qed

lemma fallbackScan_none:
  "(\<forall>off. offset \<le> off \<and> off + 15 < length data \<longrightarrow> dec (windowAt data off) = Inr []) \<Longrightarrow>
   fallbackScan dec data offset = Inr []"
proof (induction "length data - offset" arbitrary: offset)
  case 0
  then show ?case by (simp add: fallbackScan_stop)
next
  case (Suc d)
  show ?case
  proof (cases "offset + 15 < length data")
    case True
    then have e: "dec (windowAt data offset) = Inr []" using Suc.prems by simp
    have "fallbackScan dec data offset = fallbackScan dec data (Suc offset)"
      using True by (simp add: fallbackScan_unfold e)
    also have "\<dots> = Inr []"
    proof (rule Suc.hyps(1))
      show "d = length data - Suc offset" using Suc.hyps(2) by simp
      show "\<forall>off. Suc offset \<le> off \<and> off + 15 < length data \<longrightarrow> dec (windowAt data off) = Inr []"
        using Suc.prems by simp
    qed
    finally show ?thesis .
  next
    case False
    then show ?thesis by (rule fallbackScan_stop)
  qed
qed



lemma decodeKeySegment_window:
  assumes "off + 15 \<le> length data"
  shows "decodeKeySegment (windowAt data off) = Inr (formatKey (segValue (windowAt data off)))"
  using assms by (intro decodeKeySegment_formatKey length_windowAt)

lemma formatKey_nonempty: "formatKey v \<noteq> []"
  using length_formatKey [of v] by auto

lemma DecodeDigitalProductId_long:
  assumes "67 \<le> length data"
  shows "DecodeDigitalProductId data = Inr (formatKey (segValue (windowAt data 52)))"
proof -
  have "decodeKeySegment (windowAt data 52) = Inr (formatKey (segValue (windowAt data 52)))"
    using assms by (intro decodeKeySegment_window) simp
  with assms show ?thesis
    unfolding DecodeDigitalProductId_def
    by (rule locateKeyWith_primary) (rule formatKey_nonempty)
qed

section \<open>Claims about DecodeDigitalProductId\<close>

text \<open>
  Claim C6. For a buffer of at least 67 bytes, \<open>DecodeDigitalProductId\<close> returns what
  \<open>decodeKeySegment\<close> returns on the bytes 52..66, and that is a string that is not
  empty. The fallback loop plays no part: any decoder that agrees with
  \<open>decodeKeySegment\<close> on that one window gives the same result, whatever it does on
  the other windows, and two buffers with the same bytes 52..66 give the same result.
\<close>

theorem DecodeDigitalProductId_primary_only:
  assumes "67 \<le> length data"
  shows "DecodeDigitalProductId data = decodeKeySegment (take 15 (drop 52 data)) \<and>
         (\<exists>k. DecodeDigitalProductId data = Inr k \<and> k \<noteq> []) \<and>
         (\<forall>dec. dec (take 15 (drop 52 data)) = decodeKeySegment (take 15 (drop 52 data)) \<longrightarrow>
                locateKeyWith dec data = DecodeDigitalProductId data) \<and>
         (\<forall>data'. 67 \<le> length data' \<and> take 15 (drop 52 data') = take 15 (drop 52 data) \<longrightarrow>
                  DecodeDigitalProductId data' = DecodeDigitalProductId data)"
proof -
  let ?k = "formatKey (segValue (windowAt data 52))"
  have w: "take 15 (drop 52 d) = windowAt d 52" for d :: "byte list"
    by (simp add: windowAt_def)
  have prim: "decodeKeySegment (windowAt data 52) = Inr ?k"
    using assms by (intro decodeKeySegment_window) simp
  have res: "DecodeDigitalProductId data = Inr ?k"
    using assms by (rule DecodeDigitalProductId_long)
  have ne: "?k \<noteq> []" by (rule formatKey_nonempty)
  have a: "DecodeDigitalProductId data = decodeKeySegment (take 15 (drop 52 data))"
    by (simp only: w prim res)
  have b: "\<exists>k. DecodeDigitalProductId data = Inr k \<and> k \<noteq> []"
    using res ne by blast
  have c: "locateKeyWith dec data = DecodeDigitalProductId data"
    if "dec (take 15 (drop 52 data)) = decodeKeySegment (take 15 (drop 52 data))" for dec
  proof -
    from that have "dec (windowAt data 52) = Inr ?k" by (simp only: w prim)
    with assms have "locateKeyWith dec data = Inr ?k" using ne by (rule locateKeyWith_primary)
    then show ?thesis by (simp only: res)
  qed
  have d: "DecodeDigitalProductId data' = DecodeDigitalProductId data"
    if "67 \<le> length data' \<and> take 15 (drop 52 data') = take 15 (drop 52 data)" for data'
  proof -
    from that have "windowAt data' 52 = windowAt data 52" by (simp only: w)
    moreover from that have "DecodeDigitalProductId data' = Inr (formatKey (segValue (windowAt data' 52)))"
      by (intro DecodeDigitalProductId_long) simp
    ultimately show ?thesis by (simp only: res)
  qed
  from a b c d show ?thesis by blast
qed

theorem DecodeDigitalProductId_primary_only_witness:
  "67 \<le> length (replicate 100 (255 :: byte)) \<and>
   decodeKeySegment (take 15 (drop 52 (replicate 100 255))) = Inr ''TW7HQ-JY9P9-CFDMG-RH9H7-9BKDX'' \<and>
   DecodeDigitalProductId (replicate 100 255) = Inr ''TW7HQ-JY9P9-CFDMG-RH9H7-9BKDX''"
proof -
  have len: "67 \<le> length (replicate 100 (255 :: byte))" by simp
  have ev: "decodeKeySegment (take 15 (drop 52 (replicate 100 255))) = Inr ''TW7HQ-JY9P9-CFDMG-RH9H7-9BKDX''"
    by code_simp
  from DecodeDigitalProductId_primary_only [OF len]
  have "DecodeDigitalProductId (replicate 100 255) = decodeKeySegment (take 15 (drop 52 (replicate 100 255)))"
    by blast
  then have res: "DecodeDigitalProductId (replicate 100 255) = Inr ''TW7HQ-JY9P9-CFDMG-RH9H7-9BKDX''"
    by (simp only: ev)
  show ?thesis by (intro conjI len ev res)
qed


lemma wellFormedKey_nonempty: "wellFormedKey k \<Longrightarrow> k \<noteq> []"
  by (auto simp: wellFormedKey_def)

text \<open>
  Claim C7. For a buffer of at least 67 bytes, when \<open>decodeKeySegment\<close> on the bytes
  52..66 returns a structurally valid key, \<open>DecodeDigitalProductId\<close> returns exactly
  that key. The fallback loop is not consulted: the locator returns the key with any
  decoder that returns it on this window, and with any other contents of the bytes
  outside 52..66.
\<close>

theorem primary_hit_returned:
  assumes "67 \<le> length data"
      and "decodeKeySegment (take 15 (drop 52 data)) = Inr k"
      and "wellFormedKey k"
  shows "DecodeDigitalProductId data = Inr k \<and>
         (\<forall>dec. dec (take 15 (drop 52 data)) = Inr k \<longrightarrow> locateKeyWith dec data = Inr k) \<and>
         (\<forall>data'. 67 \<le> length data' \<and> take 15 (drop 52 data') = take 15 (drop 52 data) \<longrightarrow>
                  DecodeDigitalProductId data' = Inr k)"
proof -
  have ne: "k \<noteq> []" using assms(3) by (rule wellFormedKey_nonempty)
  have gen: "locateKeyWith dec d = Inr k"
    if "67 \<le> length d" "dec (take 15 (drop 52 d)) = Inr k" for dec d
  proof -
    from that(2) have "dec (windowAt d 52) = Inr k" by (simp only: windowAt_def)
    with that(1) show ?thesis using ne by (rule locateKeyWith_primary)
  qed
  have a: "DecodeDigitalProductId data = Inr k"
    unfolding DecodeDigitalProductId_def using assms(1,2) by (rule gen)
  have b: "\<forall>dec. dec (take 15 (drop 52 data)) = Inr k \<longrightarrow> locateKeyWith dec data = Inr k"
    using gen [OF assms(1)] by blast
  have c: "DecodeDigitalProductId data' = Inr k"
    if "67 \<le> length data' \<and> take 15 (drop 52 data') = take 15 (drop 52 data)" for data'
  proof -
    from that assms(2) have "decodeKeySegment (take 15 (drop 52 data')) = Inr k" by simp
    with that show ?thesis unfolding DecodeDigitalProductId_def by (intro gen) simp_all
  qed
  from a b c show ?thesis by blast
qed

theorem primary_hit_returned_witness:
  "67 \<le> length (replicate 52 (9 :: byte) @ [1, 2, 3, 4, 5, 6, 7, 8, 9, 10, 11, 12, 13, 14, 255]) \<and>
   decodeKeySegment (take 15 (drop 52 (replicate 52 9 @ [1, 2, 3, 4, 5, 6, 7, 8, 9, 10, 11, 12, 13, 14, 255])))
     = Inr ''M8V74-D28XV-QWWWC-TC8RX-2RWHP'' \<and>
   wellFormedKey ''M8V74-D28XV-QWWWC-TC8RX-2RWHP'' \<and>
   DecodeDigitalProductId (replicate 52 9 @ [1, 2, 3, 4, 5, 6, 7, 8, 9, 10, 11, 12, 13, 14, 255])
     = Inr ''M8V74-D28XV-QWWWC-TC8RX-2RWHP''"
proof -
  let ?d = "replicate 52 (9 :: byte) @ [1, 2, 3, 4, 5, 6, 7, 8, 9, 10, 11, 12, 13, 14, 255]"
  have len: "67 \<le> length ?d" by simp
  have ev: "decodeKeySegment (take 15 (drop 52 ?d)) = Inr ''M8V74-D28XV-QWWWC-TC8RX-2RWHP''"
    by code_simp
  have wf: "wellFormedKey ''M8V74-D28XV-QWWWC-TC8RX-2RWHP''"
    by code_simp
  have res: "DecodeDigitalProductId ?d = Inr ''M8V74-D28XV-QWWWC-TC8RX-2RWHP''"
    using primary_hit_returned [OF len ev wf] by blast
  show ?thesis by (intro conjI len ev wf res)
qed

text \<open>
  Claim C1 says that a buffer of 200 zero bytes yields the empty string. It does not:
  the bytes 52..66 decode to a structurally valid key, which is returned.
\<close>

theorem all_zero_buffer_counterexample:
  "DecodeDigitalProductId (replicate 200 (0 :: byte)) = Inr ''BBBBB-BBBBB-BBBBB-BBBBB-BBBBB'' \<and>
   DecodeDigitalProductId (replicate 200 (0 :: byte)) \<noteq> Inr [] \<and>
   decodeKeySegment (take 15 (drop 52 (replicate 200 (0 :: byte)))) = Inr ''BBBBB-BBBBB-BBBBB-BBBBB-BBBBB'' \<and>
   wellFormedKey ''BBBBB-BBBBB-BBBBB-BBBBB-BBBBB''"
  by code_simp

text \<open>
  Claim C1, amended. The buffers in which no window of 15 bytes decodes to a structurally
  valid key are exactly the buffers shorter than 15 bytes, and for every such buffer
  \<open>DecodeDigitalProductId\<close> returns the empty string (not a panic).
\<close>

theorem no_window_no_key:
  "(noValidWindow data \<longleftrightarrow> length data < 15) \<and>
   (noValidWindow data \<longrightarrow> DecodeDigitalProductId data = Inr [])"
proof -
  have a: "noValidWindow data \<longleftrightarrow> length data < 15"
  proof (cases "length data < 15")
    case True
    then have "Suc (length data) - 15 = 0" by simp
    then have "noValidWindow data" by (simp add: noValidWindow_def)
    with True show ?thesis by simp
  next
    case False
    then have le: "0 + 15 \<le> length data" by simp
    have "decodeKeySegment (windowAt data 0) = Inr (formatKey (segValue (windowAt data 0)))"
      using le by (rule decodeKeySegment_window)
    moreover have "wellFormedKey (formatKey (segValue (windowAt data 0)))"
      by (rule wellFormedKey_formatKey)
    moreover have "0 \<in> set [0..<Suc (length data) - 15]" using False by simp
    ultimately have "\<not> noValidWindow data"
      unfolding noValidWindow_def list_all_iff by (metis (mono_tags, lifting) sum.simps(6))
    with False show ?thesis by simp
  qed
  have "DecodeDigitalProductId data = Inr []" if "length data < 15"
    unfolding DecodeDigitalProductId_def using that by (intro locateKeyWith_short) simp
  with a show ?thesis by blast
qed

theorem no_window_no_key_witness:
  "noValidWindow (replicate 10 (0 :: byte)) \<and> DecodeDigitalProductId (replicate 10 (0 :: byte)) = Inr []"
proof -
  have nv: "noValidWindow (replicate 10 (0 :: byte))" by (simp add: noValidWindow_def)
  with no_window_no_key [of "replicate 10 0"] show ?thesis by blast
qed

section \<open>Claim about the range of the accumulator\<close>

lemma fitsInt_small:
  assumes "16 \<le> w" "0 \<le> x" "x \<le> 6143"
  shows "fitsInt w x"
proof -
  have "(2::int) ^ 15 \<le> 2 ^ (w - 1)"
    using assms(1) by (intro power_increasing) simp_all
  then have "32768 \<le> (2::int) ^ (w - 1)" by simp
  with assms(2,3) show ?thesis by (simp add: fitsInt_def)
qed

lemma checked_small: "16 \<le> w \<Longrightarrow> 0 \<le> x \<Longrightarrow> x \<le> 6143 \<Longrightarrow> checked w x = Inr x"
  by (simp add: checked_def fitsInt_small)

lemma divLoopChecked_eq:
  "16 \<le> w \<Longrightarrow> n \<le> length tmp \<Longrightarrow> 0 \<le> acc \<Longrightarrow> acc \<le> 23 \<Longrightarrow>
   divLoopChecked w n tmp acc = divLoop n tmp acc"
proof (induction n arbitrary: tmp acc)
  case 0
  then show ?case by simp
next
  case (Suc j)
  define a where "a = acc * 256 + uint (tmp ! j)"
  have acc24: "acc < 24" using Suc.prems(4) by simp
  have b: "0 \<le> a" "a \<le> 6143" "0 \<le> a div 24" "a div 24 \<le> 255"
    unfolding a_def using acc_step_bounds [OF Suc.prems(3) acc24] by simp_all
  have m: "0 \<le> acc * 256" "acc * 256 \<le> 6143" using Suc.prems(3,4) by simp_all
  have r: "0 \<le> a mod 24" "a mod 24 \<le> 23" by simp_all
  have c1: "checked w (acc * 256) = Inr (acc * 256)"
    using Suc.prems(1) m by (rule checked_small)
  have c2: "checked w (acc * 256 + uint (tmp ! j)) = Inr a"
    unfolding a_def [symmetric] using Suc.prems(1) b(1,2) by (rule checked_small)
  have c3: "checked w (a sdiv 24) = Inr (a div 24)"
    using b checked_small [OF Suc.prems(1), of "a div 24"] by (simp add: sdiv_nonneg)
  have c4: "checked w (a smod 24) = Inr (a mod 24)"
    using b(1) r checked_small [OF Suc.prems(1), of "a mod 24"] by (simp add: smod_nonneg)
  have jlt: "j < length tmp" using Suc.prems(2) by simp
  have "divLoopChecked w (Suc j) tmp acc
        = divLoopChecked w j (tmp[j := (word_of_int (a div 24) :: byte)]) (a mod 24)"
    using Suc.prems(3,4) jlt b(1,2) by (simp add: c1 c2 c3 c4)
  also have "\<dots> = divLoop j (tmp[j := (word_of_int (a div 24) :: byte)]) (a mod 24)"
    using Suc.prems(1) jlt r by (intro Suc.IH) simp_all
  also have "\<dots> = divLoop (Suc j) tmp acc"
    using jlt b(1) by (simp add: a_def Let_def sdiv_nonneg smod_nonneg)
  finally show ?case .
qed

lemma decodeLoopChecked_eq:
  "16 \<le> w \<Longrightarrow> length tmp = 15 \<Longrightarrow>
   decodeLoopChecked w n tmp decoded = decodeLoop n tmp decoded"
proof (induction n arbitrary: tmp decoded)
  case 0
  then show ?case by simp
next
  case (Suc n)
  obtain tmp' where
    res: "divLoop 15 tmp 0 = Inr (tmp', int (segValue tmp mod 24))" and len: "length tmp' = 15"
    using divLoop_full [OF Suc.prems(2)] by blast
  have chk: "divLoopChecked w 15 tmp 0 = divLoop 15 tmp 0"
    using Suc.prems by (intro divLoopChecked_eq) simp_all
  show ?case
    by (simp add: chk res Suc.IH [OF Suc.prems(1) len] Let_def)
qed


text \<open>
  Claim C10. When \<open>acc\<close> is in 0..23 at the start of a step, \<^verbatim>\<open>acc*256 + int(tmp[j])\<close>
  is in 0..6143, below 256 * 24, its remainder by 24 is in 0..23 again and its quotient
  is at most 255. For every width of 16 bits or more and every 15-byte working copy, the
  checked inner loop started with \<open>acc = 0\<close> does not fail and computes what the
  unchecked loop computes, and so do the 25 rounds: no operation overflows and
  \<open>acc\<close> is in 0..23 at the start of every step.
\<close>

theorem accumulator_in_range:
  "(0 \<le> acc \<and> acc \<le> 23 \<longrightarrow>
      0 \<le> acc * 256 + uint (b :: byte) \<and> acc * 256 + uint b \<le> 23 * 256 + 255 \<and>
      acc * 256 + uint b < 256 * 24 \<and>
      0 \<le> (acc * 256 + uint b) smod 24 \<and> (acc * 256 + uint b) smod 24 \<le> 23 \<and>
      0 \<le> (acc * 256 + uint b) sdiv 24 \<and> (acc * 256 + uint b) sdiv 24 \<le> 255) \<and>
   (16 \<le> w \<and> length tmp = 15 \<longrightarrow>
      divLoopChecked w 15 tmp 0 = divLoop 15 tmp 0 \<and>
      (\<exists>tmp' r. divLoopChecked w 15 tmp 0 = Inr (tmp', r) \<and> 0 \<le> r \<and> r \<le> 23) \<and>
      decodeLoopChecked w 25 tmp [] = decodeLoop 25 tmp [] \<and>
      (\<exists>s. decodeLoopChecked w 25 tmp [] = Inr s))"
proof (intro conjI impI)
  assume a: "0 \<le> acc \<and> acc \<le> 23"
  then have acc: "0 \<le> acc" "acc < 24" by simp_all
  note bnd = acc_step_bounds [OF acc, of b]
  show "0 \<le> acc * 256 + uint b" by (rule bnd(1))
  show "acc * 256 + uint b \<le> 23 * 256 + 255" using bnd(2) by simp
  show "acc * 256 + uint b < 256 * 24" using bnd(2) by simp
  show "0 \<le> (acc * 256 + uint b) smod 24" using bnd(1) by (simp add: smod_nonneg)
  show "(acc * 256 + uint b) smod 24 \<le> 23" using bnd(1) by (simp add: smod_nonneg)
  show "0 \<le> (acc * 256 + uint b) sdiv 24" using bnd(1,3) by (simp add: sdiv_nonneg)
  show "(acc * 256 + uint b) sdiv 24 \<le> 255" using bnd(1,4) by (simp add: sdiv_nonneg)
next
  assume h: "16 \<le> w \<and> length tmp = 15"
  then have w: "16 \<le> w" and len: "length tmp = 15" by simp_all
  show eq: "divLoopChecked w 15 tmp 0 = divLoop 15 tmp 0"
    using w len by (intro divLoopChecked_eq) simp_all
  obtain tmp' where res: "divLoop 15 tmp 0 = Inr (tmp', int (segValue tmp mod 24))"
    using divLoop_full [OF len] by blast
  have "0 \<le> int (segValue tmp mod 24)" "int (segValue tmp mod 24) \<le> 23" by simp_all
  with eq res show "\<exists>tmp' r. divLoopChecked w 15 tmp 0 = Inr (tmp', r) \<and> 0 \<le> r \<and> r \<le> 23"
    by (metis)
  show eq2: "decodeLoopChecked w 25 tmp [] = decodeLoop 25 tmp []"
    using w len by (rule decodeLoopChecked_eq)
  show "\<exists>s. decodeLoopChecked w 25 tmp [] = Inr s"
    using decodeLoop_spec [OF len, of 25 "[]"] eq2 by simp
qed

theorem accumulator_in_range_witness:
  "(0::int) \<le> 23 \<and> (23::int) \<le> 23 \<and> 23 * 256 + uint (255 :: byte) = 6143 \<and>
   (23 * 256 + uint (255 :: byte)) smod 24 = 23 \<and> (23 * 256 + uint (255 :: byte)) sdiv 24 = 255 \<and>
   (16::nat) \<le> 16 \<and> length (replicate 13 (0 :: byte) @ [255, 23]) = 15 \<and>
   divLoopChecked 16 15 (replicate 13 0 @ [255, 23]) 0 = divLoop 15 (replicate 13 0 @ [255, 23]) 0 \<and>
   decodeLoopChecked 16 25 (replicate 13 0 @ [255, 23]) [] = Inr ''7QB2T-43XHF-Q8BCD-G689Y-MYWHM''"
proof -
  have ev: "decodeLoop 25 (replicate 13 (0 :: byte) @ [255, 23]) [] = Inr ''7QB2T-43XHF-Q8BCD-G689Y-MYWHM''"
    by code_simp
  have h: "(16::nat) \<le> 16 \<and> length (replicate 13 (0 :: byte) @ [255, 23]) = 15" by simp
  from accumulator_in_range [of 23 255 16 "replicate 13 0 @ [255, 23]"] h
  have a: "divLoopChecked 16 15 (replicate 13 0 @ [255, 23]) 0 = divLoop 15 (replicate 13 0 @ [255, 23]) 0"
    and b: "decodeLoopChecked 16 25 (replicate 13 0 @ [255, 23]) [] = decodeLoop 25 (replicate 13 0 @ [255, 23]) []"
    by blast+
  have c: "decodeLoopChecked 16 25 (replicate 13 0 @ [255, 23]) [] = Inr ''7QB2T-43XHF-Q8BCD-G689Y-MYWHM''"
    by (simp only: b ev)
  have d: "23 * 256 + uint (255 :: byte) = 6143" by simp
  have e: "(23 * 256 + uint (255 :: byte)) smod 24 = 23" by (simp add: signed_modulo_int_def)
  have f: "(23 * 256 + uint (255 :: byte)) sdiv 24 = 255" by (simp add: signed_divide_int_def)
  show ?thesis using h by (intro conjI a c d e f) simp_all
qed

lemma thirteen_bits_overflow:
  "divLoopChecked 13 15 (replicate 13 0 @ [255, 23]) 0 = Inl IntegerOverflow"
  by code_simp

section \<open>The store: what a call writes\<close>

lemma length_contents: "validRef st s \<Longrightarrow> length (contents st s) = s_len s"
  by (auto simp: contents_def validRef_def)

lemma readAt_contents:
  "i < s_len s \<Longrightarrow> validRef st s \<Longrightarrow> readAt st s i = Inr (contents st s ! i)"
  by (simp add: readAt_def contents_def validRef_def)

lemma writeAt_spec:
  fixes v :: byte
  assumes "i < s_len s" "validRef st s"
  defines "st1 \<equiv> st[s_array s := (st ! s_array s)[s_off s + i := v]]"
  shows "writeAt st s i v = Inr st1" "length st1 = length st"
        "\<forall>a. a \<noteq> s_array s \<longrightarrow> st1 ! a = st ! a" "validRef st1 s"
        "contents st1 s = (contents st s)[i := v]"
proof -
  show "writeAt st s i v = Inr st1" using assms(1) by (simp add: writeAt_def st1_def)
  show "length st1 = length st" by (simp add: st1_def)
  show "\<forall>a. a \<noteq> s_array s \<longrightarrow> st1 ! a = st ! a" by (simp add: st1_def)
  show "validRef st1 s" using assms(2) by (simp add: st1_def validRef_def)
  have "st1 ! s_array s = (st ! s_array s)[s_off s + i := v]"
    using assms(2) by (simp add: st1_def validRef_def)
  then show "contents st1 s = (contents st s)[i := v]"
    by (simp add: contents_def drop_update_swap take_update_swap)
qed

lemma divLoopH_refines:
  "n \<le> s_len tmp \<Longrightarrow> validRef st tmp \<Longrightarrow> divLoop n (contents st tmp) acc = Inr (t', r) \<Longrightarrow>
   \<exists>st'. divLoopH n st tmp acc = Inr (st', r) \<and> contents st' tmp = t' \<and> length st' = length st \<and>
         (\<forall>a. a \<noteq> s_array tmp \<longrightarrow> st' ! a = st ! a) \<and> validRef st' tmp"
proof (induction n arbitrary: st acc)
  case 0
  then show ?case by simp
next
  case (Suc j)
  let ?c = "contents st tmp"
  define a1 where "a1 = acc * 256 + uint (?c ! j)"
  define q :: byte where "q = word_of_int (a1 sdiv 24)"
  define st1 where "st1 = st[s_array tmp := (st ! s_array tmp)[s_off tmp + j := q]]"
  have jlt: "j < s_len tmp" using Suc.prems(1) by simp
  have jc: "j < length ?c" using jlt Suc.prems(2) by (simp add: length_contents)
  have rd: "readAt st tmp j = Inr (?c ! j)" using jlt Suc.prems(2) by (rule readAt_contents)
  note w = writeAt_spec [OF jlt Suc.prems(2), of q, folded st1_def]
  have pure: "divLoop j (contents st1 tmp) (a1 smod 24) = Inr (t', r)"
    using Suc.prems(3) jc by (simp add: w(5) a1_def q_def Let_def)
  have "j \<le> s_len tmp" using jlt by simp
  from Suc.IH [OF this w(4) pure] obtain st' where
    h: "divLoopH j st1 tmp (a1 smod 24) = Inr (st', r)" "contents st' tmp = t'"
       "length st' = length st1" "\<forall>a. a \<noteq> s_array tmp \<longrightarrow> st' ! a = st1 ! a" "validRef st' tmp"
    by blast
  have "divLoopH (Suc j) st tmp acc = divLoopH j st1 tmp (a1 smod 24)"
    by (simp add: rd w(1) a1_def [symmetric] q_def [symmetric] Let_def)
  with h w(2,3) show ?case by auto
qed

lemma decodeLoopH_refines:
  "s_len tmp = 15 \<Longrightarrow> validRef st tmp \<Longrightarrow> decodeLoop n (contents st tmp) decoded = Inr s \<Longrightarrow>
   \<exists>st'. decodeLoopH n st tmp decoded = Inr (st', s) \<and> length st' = length st \<and>
         (\<forall>a. a \<noteq> s_array tmp \<longrightarrow> st' ! a = st ! a)"
proof (induction n arbitrary: st decoded)
  case 0
  then show ?case by simp
next
  case (Suc n)
  let ?c = "contents st tmp"
  have lc: "length ?c = 15" using Suc.prems(1,2) by (simp add: length_contents)
  obtain t' where res: "divLoop 15 ?c 0 = Inr (t', int (segValue ?c mod 24))"
    using divLoop_full [OF lc] by blast
  have "15 \<le> s_len tmp" using Suc.prems(1) by simp
  from divLoopH_refines [OF this Suc.prems(2) res] obtain st1 where
    h: "divLoopH 15 st tmp 0 = Inr (st1, int (segValue ?c mod 24))" "contents st1 tmp = t'"
       "length st1 = length st" "\<forall>a. a \<noteq> s_array tmp \<longrightarrow> st1 ! a = st ! a" "validRef st1 tmp"
    by blast
  have idx: "segValue ?c mod 24 < length keyChars" by (simp add: length_keyChars)
  define d2 where "d2 = (let decoded1 = (keyChars ! (segValue ?c mod 24)) # decoded
                         in if n mod 5 = 0 \<and> n \<noteq> 0 then CHR ''-'' # decoded1 else decoded1)"
  have pure: "decodeLoop n (contents st1 tmp) d2 = Inr s"
    using Suc.prems(3) idx by (simp add: res h(2) d2_def Let_def)
  from Suc.IH [OF Suc.prems(1) h(5) pure] obtain st' where
    k: "decodeLoopH n st1 tmp d2 = Inr (st', s)" "length st' = length st1"
       "\<forall>a. a \<noteq> s_array tmp \<longrightarrow> st' ! a = st1 ! a"
    by blast
  have "decodeLoopH (Suc n) st tmp decoded = decodeLoopH n st1 tmp d2"
    using idx by (simp add: h(1) d2_def Let_def)
  with k h(3,4) show ?case by auto
qed


lemma prefix_nth: "take (length st) st' = st \<Longrightarrow> a < length st \<Longrightarrow> st' ! a = st ! a"
  by (metis nth_take)

lemma prefix_trans:
  "take (length st) st1 = st \<Longrightarrow> take (length st1) st2 = st1 \<Longrightarrow> take (length st) st2 = st"
  by (metis length_take min.absorb2 nat_le_linear take_all take_take)

lemma prefix_valid:
  "take (length st) st' = st \<Longrightarrow> validRef st s \<Longrightarrow> validRef st' s \<and> contents st' s = contents st s"
proof -
  assume p: "take (length st) st' = st" and v: "validRef st s"
  from v have a: "s_array s < length st" by (simp add: validRef_def)
  with p have e: "st' ! s_array s = st ! s_array s" by (rule prefix_nth)
  have "length st \<le> length st'" using p by (metis length_take min.cobounded1)
  with a v e show ?thesis by (simp add: validRef_def contents_def)
qed

lemma fresh_copy:
  assumes "validRef st src" "s_len src = n"
  shows "copyInto (fst (allocate st n)) (snd (allocate st n)) src = st @ [contents st src]"
proof -
  have a: "s_array src < length st" using assms(1) by (simp add: validRef_def)
  have c: "contents (st @ [replicate n 0]) src = contents st src"
    using a by (simp add: contents_def nth_append)
  have l: "length (contents st src) = n" using assms by (simp add: length_contents)
  show ?thesis
    using assms(2) by (simp add: allocate_def copyInto_def c l Let_def)
qed

lemma decodeKeySegmentH_refines:
  assumes "validRef st seg"
  shows "\<exists>st' r. decodeKeySegmentH st seg = Inr (st', r) \<and> decodeKeySegment (contents st seg) = Inr r \<and>
                take (length st) st' = st"
proof (cases "s_len seg = 15")
  case False
  then have "length (contents st seg) \<noteq> 15" using assms by (simp add: length_contents)
  then have "decodeKeySegment (contents st seg) = Inr []" by (rule decodeKeySegment_wrong_length)
  with False show ?thesis by (simp add: decodeKeySegmentH_def)
next
  case True
  let ?c = "contents st seg"
  let ?tmp = "\<lparr>s_array = length st, s_off = 0, s_len = 15\<rparr>"
  let ?st2 = "st @ [?c]"
  have lc: "length ?c = 15" using assms True by (simp add: length_contents)
  have cp: "copyInto (st @ [replicate 15 0]) ?tmp seg = ?st2"
    using fresh_copy [OF assms True] by (simp add: allocate_def)
  have vt: "validRef ?st2 ?tmp" by (simp add: validRef_def lc)
  have ct: "contents ?st2 ?tmp = ?c" by (simp add: contents_def [of ?st2 ?tmp] lc)
  have dk: "decodeKeySegment ?c = Inr (formatKey (segValue ?c))"
    using lc by (rule decodeKeySegment_formatKey)
  have "decodeLoop 25 ?c [] = Inr (formatKey (segValue ?c))"
    using decodeLoop_spec [OF lc, of 25 "[]"] by (simp only: rounds_formatKey append_Nil2)
  then have "decodeLoop 25 (contents ?st2 ?tmp) [] = Inr (formatKey (segValue ?c))"
    by (simp only: ct)
  from decodeLoopH_refines [OF _ vt this] obtain st3 where
    h: "decodeLoopH 25 ?st2 ?tmp [] = Inr (st3, formatKey (segValue ?c))"
       "length st3 = length ?st2" "\<forall>a. a \<noteq> s_array ?tmp \<longrightarrow> st3 ! a = ?st2 ! a"
    by auto
  have pre: "take (length st) st3 = st"
  proof (rule nth_equalityI)
    show "length (take (length st) st3) = length st" using h(2) by simp
    fix i assume "i < length (take (length st) st3)"
    then have i: "i < length st" by simp
    then have "st3 ! i = ?st2 ! i" using h(3) by simp
    with i show "take (length st) st3 ! i = st ! i" by (simp add: nth_append)
  qed
  have "decodeKeySegmentH st seg = Inr (st3, formatKey (segValue ?c))"
    using True by (simp add: decodeKeySegmentH_def allocate_def cp h(1) length_formatKey)
  with dk pre show ?thesis by blast
qed

lemma fallbackScanH_frame:
  "validRef st data \<Longrightarrow>
   \<exists>st' r. fallbackScanH st data offset = Inr (st', r) \<and> take (length st) st' = st"
proof (induction "s_len data - offset" arbitrary: st offset)
  case 0
  then have "\<not> int offset < int (s_len data) - 15" by simp
  then show ?case by (subst fallbackScanH.simps) simp
next
  case (Suc d)
  show ?case
  proof (cases "int offset < int (s_len data) - 15")
    case False
    then show ?thesis by (subst fallbackScanH.simps) simp
  next
    case True
    let ?seg = "\<lparr>s_array = s_array data, s_off = s_off data + offset, s_len = 15\<rparr>"
    have sub: "subslice data offset (offset + 15) = Inr ?seg"
      using True by (simp add: subslice_def)
    have vs: "validRef st ?seg" using Suc.prems True by (simp add: validRef_def)
    from decodeKeySegmentH_refines [OF vs] obtain st1 key where
      k: "decodeKeySegmentH st ?seg = Inr (st1, key)" "take (length st) st1 = st"
      by blast
    have v1: "validRef st1 data" using prefix_valid [OF k(2) Suc.prems] by simp
    have "d = s_len data - Suc offset" using Suc.hyps(2) by simp
    from Suc.hyps(1) [OF this v1] obtain st' r where
      ih: "fallbackScanH st1 data (Suc offset) = Inr (st', r)" "take (length st1) st' = st1"
      by blast
    have p: "take (length st) st' = st" using k(2) ih(2) by (rule prefix_trans)
    have "fallbackScanH st data offset =
            (if key \<noteq> [] then Inr (st1, key) else fallbackScanH st1 data (Suc offset))"
      using True by (subst fallbackScanH.simps) (simp add: sub k(1))
    with k(2) ih(1) p show ?thesis by auto
  qed
qed

lemma DecodeDigitalProductIdH_refines:
  assumes "validRef st data"
  shows "\<exists>st' r. DecodeDigitalProductIdH st data = Inr (st', r) \<and>
                DecodeDigitalProductId (contents st data) = Inr r \<and> take (length st) st' = st"
proof (cases "s_len data < 67")
  case True
  then have "length (contents st data) < 67" using assms by (simp add: length_contents)
  then have "DecodeDigitalProductId (contents st data) = Inr []"
    unfolding DecodeDigitalProductId_def by (rule locateKeyWith_short)
  with True show ?thesis by (simp add: DecodeDigitalProductIdH_def)
next
  case False
  let ?d = "contents st data"
  let ?w = "\<lparr>s_array = s_array data, s_off = s_off data + 52, s_len = 15\<rparr>"
  let ?segment = "\<lparr>s_array = length st, s_off = 0, s_len = 15\<rparr>"
  have ld: "67 \<le> length ?d" using False assms by (simp add: length_contents)
  have sub: "subslice data 52 67 = Inr ?w" using False by (simp add: subslice_def)
  have vw: "validRef st ?w" using assms False by (simp add: validRef_def)
  have cw: "contents st ?w = windowAt ?d 52"
    using assms False by (simp add: contents_def windowAt_def validRef_def drop_take add.commute)
  have cp: "copyInto (st @ [replicate 15 0]) ?segment ?w = st @ [windowAt ?d 52]"
    using fresh_copy [OF vw, of 15] by (simp add: allocate_def cw)
  let ?st2 = "st @ [windowAt ?d 52]"
  have lw: "length (windowAt ?d 52) = 15" using ld by (intro length_windowAt) simp
  have vs: "validRef ?st2 ?segment" by (simp add: validRef_def lw)
  have cs: "contents ?st2 ?segment = windowAt ?d 52" by (simp add: contents_def [of ?st2 ?segment] lw)
  from decodeKeySegmentH_refines [OF vs] obtain st3 r where
    k: "decodeKeySegmentH ?st2 ?segment = Inr (st3, r)" "decodeKeySegment (windowAt ?d 52) = Inr r"
       "take (length ?st2) st3 = ?st2"
    unfolding cs by blast
  have "decodeKeySegment (windowAt ?d 52) = Inr (formatKey (segValue (windowAt ?d 52)))"
    using lw by (rule decodeKeySegment_formatKey)
  with k(2) have r: "r = formatKey (segValue (windowAt ?d 52))" by simp
  then have ne: "r \<noteq> []" by (simp add: formatKey_nonempty)
  have pure: "DecodeDigitalProductId ?d = Inr r"
    using DecodeDigitalProductId_long [OF ld] r by simp
  have "take (length st) ?st2 = st" by simp
  then have pre: "take (length st) st3 = st" using k(3) by (rule prefix_trans)
  have "DecodeDigitalProductIdH st data = Inr (st3, r)"
    using False ne by (simp add: DecodeDigitalProductIdH_def allocate_def sub cp k(1))
  with pure pre show ?thesis by blast
qed


text \<open>
  Claim C9. Called on a slice that lies within the store, \<open>decodeKeySegment\<close> and
  \<open>DecodeDigitalProductId\<close> (and the fallback loop from any offset) return without a
  panic, every array that the store held before the call is unchanged after it, so the
  bytes of the caller's slice are the same; the string returned is the one the
  function on byte sequences returns for the bytes of the slice, and a second call on
  the store left by the first returns the same string.
\<close>

theorem input_not_mutated:
  assumes "validRef st s"
  shows "(\<exists>st' r. decodeKeySegmentH st s = Inr (st', r) \<and> decodeKeySegment (contents st s) = Inr r \<and>
                 take (length st) st' = st \<and> contents st' s = contents st s \<and>
                 (\<exists>st''. decodeKeySegmentH st' s = Inr (st'', r))) \<and>
         (\<exists>st' r. DecodeDigitalProductIdH st s = Inr (st', r) \<and>
                 DecodeDigitalProductId (contents st s) = Inr r \<and>
                 take (length st) st' = st \<and> contents st' s = contents st s \<and>
                 (\<exists>st''. DecodeDigitalProductIdH st' s = Inr (st'', r))) \<and>
         (\<forall>offset. \<exists>st' r. fallbackScanH st s offset = Inr (st', r) \<and>
                 take (length st) st' = st \<and> contents st' s = contents st s)"
proof (intro conjI allI)
  from decodeKeySegmentH_refines [OF assms] obtain st' r where
    h: "decodeKeySegmentH st s = Inr (st', r)" "decodeKeySegment (contents st s) = Inr r"
       "take (length st) st' = st"
    by blast
  have v: "validRef st' s" "contents st' s = contents st s"
    using prefix_valid [OF h(3) assms] by simp_all
  from decodeKeySegmentH_refines [OF v(1)] obtain st'' r' where
    h': "decodeKeySegmentH st' s = Inr (st'', r')" "decodeKeySegment (contents st' s) = Inr r'"
    by blast
  from h'(2) h(2) have "r' = r" by (simp add: v(2))
  with h h' v show "\<exists>st' r. decodeKeySegmentH st s = Inr (st', r) \<and>
      decodeKeySegment (contents st s) = Inr r \<and> take (length st) st' = st \<and>
      contents st' s = contents st s \<and> (\<exists>st''. decodeKeySegmentH st' s = Inr (st'', r))"
    by blast
next
  from DecodeDigitalProductIdH_refines [OF assms] obtain st' r where
    h: "DecodeDigitalProductIdH st s = Inr (st', r)" "DecodeDigitalProductId (contents st s) = Inr r"
       "take (length st) st' = st"
    by blast
  have v: "validRef st' s" "contents st' s = contents st s"
    using prefix_valid [OF h(3) assms] by simp_all
  from DecodeDigitalProductIdH_refines [OF v(1)] obtain st'' r' where
    h': "DecodeDigitalProductIdH st' s = Inr (st'', r')"
        "DecodeDigitalProductId (contents st' s) = Inr r'"
    by blast
  from h'(2) h(2) have "r' = r" by (simp add: v(2))
  with h h' v show "\<exists>st' r. DecodeDigitalProductIdH st s = Inr (st', r) \<and>
      DecodeDigitalProductId (contents st s) = Inr r \<and> take (length st) st' = st \<and>
      contents st' s = contents st s \<and> (\<exists>st''. DecodeDigitalProductIdH st' s = Inr (st'', r))"
    by blast
next
  fix offset
  from fallbackScanH_frame [OF assms, of offset] obtain st' r where
    h: "fallbackScanH st s offset = Inr (st', r)" "take (length st) st' = st"
    by blast
  have "contents st' s = contents st s" using prefix_valid [OF h(2) assms] by simp
  with h show "\<exists>st' r. fallbackScanH st s offset = Inr (st', r) \<and>
      take (length st) st' = st \<and> contents st' s = contents st s"
    by blast
qed

theorem input_not_mutated_witness:
  "validRef [replicate 52 9 @ [1, 2, 3, 4, 5, 6, 7, 8, 9, 10, 11, 12, 13, 14, 255]]
     \<lparr>s_array = 0, s_off = 0, s_len = 67\<rparr> \<and>
   DecodeDigitalProductIdH [replicate 52 9 @ [1, 2, 3, 4, 5, 6, 7, 8, 9, 10, 11, 12, 13, 14, 255]]
     \<lparr>s_array = 0, s_off = 0, s_len = 67\<rparr>
     = Inr ([replicate 52 9 @ [1, 2, 3, 4, 5, 6, 7, 8, 9, 10, 11, 12, 13, 14, 255],
             [1, 2, 3, 4, 5, 6, 7, 8, 9, 10, 11, 12, 13, 14, 255],
             [41, 0, 0, 0, 0, 0, 0, 0, 0, 0, 0, 0, 0, 0, 0]],
            ''M8V74-D28XV-QWWWC-TC8RX-2RWHP'') \<and>
   DecodeDigitalProductId
     (contents [replicate 52 9 @ [1, 2, 3, 4, 5, 6, 7, 8, 9, 10, 11, 12, 13, 14, 255]]
        \<lparr>s_array = 0, s_off = 0, s_len = 67\<rparr>)
     = Inr ''M8V74-D28XV-QWWWC-TC8RX-2RWHP''"
proof -
  let ?st = "[replicate 52 (9 :: byte) @ [1, 2, 3, 4, 5, 6, 7, 8, 9, 10, 11, 12, 13, 14, 255]]"
  let ?s = "\<lparr>s_array = 0, s_off = 0, s_len = 67\<rparr>"
  have v: "validRef ?st ?s" by (simp add: validRef_def)
  have ev: "DecodeDigitalProductIdH ?st ?s
     = Inr ([replicate 52 9 @ [1, 2, 3, 4, 5, 6, 7, 8, 9, 10, 11, 12, 13, 14, 255],
             [1, 2, 3, 4, 5, 6, 7, 8, 9, 10, 11, 12, 13, 14, 255],
             [41, 0, 0, 0, 0, 0, 0, 0, 0, 0, 0, 0, 0, 0, 0]],
            ''M8V74-D28XV-QWWWC-TC8RX-2RWHP'')"
    by code_simp
  from input_not_mutated [OF v] obtain st' r where
    h: "DecodeDigitalProductIdH ?st ?s = Inr (st', r)"
       "DecodeDigitalProductId (contents ?st ?s) = Inr r"
    by blast
  from h(1) ev have "r = ''M8V74-D28XV-QWWWC-TC8RX-2RWHP''" by simp
  with h(2) have p: "DecodeDigitalProductId (contents ?st ?s) = Inr ''M8V74-D28XV-QWWWC-TC8RX-2RWHP''"
    by simp
  show ?thesis by (intro conjI v ev p)
qed

section \<open>Claims about the length tests\<close>

text \<open>
  Claim C8. \<open>decodeKeySegment\<close> returns the empty string, and nothing else, for
  every input whose length is not 15; \<open>DecodeDigitalProductId\<close> returns the empty
  string for every buffer shorter than 67 bytes. Neither case is a panic.
\<close>

theorem length_guards:
  "(length segment \<noteq> 15 \<longrightarrow> decodeKeySegment segment = Inr []) \<and>
   (length data < 67 \<longrightarrow> DecodeDigitalProductId data = Inr [])"
  by (simp add: decodeKeySegment_wrong_length DecodeDigitalProductId_def locateKeyWith_short)

theorem length_guards_witness:
  "length [1, 2, 3 :: byte] \<noteq> 15 \<and> decodeKeySegment [1, 2, 3] = Inr [] \<and>
   length (replicate 66 (7 :: byte)) < 67 \<and> DecodeDigitalProductId (replicate 66 7) = Inr []"
  using length_guards [of "[1, 2, 3]" "replicate 66 7"] by simp

end
